theory Spec2Isabelle
  imports
    Main
    "HOL-Library.Word"
    "HOL-Library.Char_ord"
    "HOL-Library.List_Lexorder"
    "HOL-Library.AList"
    "HOL-Library.Multiset"
begin

section \<open>The per-function latency aggregator (cl\_api\_collector.h)\<close>

subsection \<open>Data model\<close>

text \<open>
  \<^verbatim>\<open>struct Function\<close>: four \<^verbatim>\<open>uint64_t\<close> fields. Unsigned 64-bit arithmetic wraps
  around, which is what \<^typ>\<open>64 word\<close> does; \<open><\<close> on words is the unsigned order.
\<close>

type_synonym u64 = "64 word"

record Function =
  total_time :: u64
  min_time :: u64
  max_time :: u64
  call_count :: u64

text \<open>\<^verbatim>\<open>Function::operator>\<close> (lines 26-31) and \<^verbatim>\<open>Function::operator!=\<close> (lines 33-38).\<close>

definition Function_gt :: "Function \<Rightarrow> Function \<Rightarrow> bool" where
  "Function_gt l r =
     (if total_time l \<noteq> total_time r then total_time l > total_time r
      else call_count l > call_count r)"

definition Function_ne :: "Function \<Rightarrow> Function \<Rightarrow> bool" where
  "Function_ne l r =
     (if total_time l = total_time r then call_count l \<noteq> call_count r
      else True)"

text \<open>
  \<^verbatim>\<open>using FunctionInfoMap = std::map<std::string, Function>\<close>: an association list
  whose keys are kept in ascending order of \<^verbatim>\<open>std::less<std::string>\<close> (bytewise
  lexicographic, the order of \<^typ>\<open>string\<close> here), which is the order in which the
  map is iterated.
\<close>

type_synonym FunctionInfoMap = "(string \<times> Function) list"

subsection \<open>AddFunctionTime (lines 155-170)\<close>

text \<open>
  The body of the \<^verbatim>\<open>else\<close> branch, applied to the entry \<^verbatim>\<open>Function& function\<close>
  in place: add to the total, lower the minimum, raise the maximum, count the call.
\<close>

definition update_function :: "u64 \<Rightarrow> Function \<Rightarrow> Function" where
  "update_function time function =
     (let function = function\<lparr>total_time := total_time function + time\<rparr>;
          function = (if time < min_time function then function\<lparr>min_time := time\<rparr> else function);
          function = (if time > max_time function then function\<lparr>max_time := time\<rparr> else function)
      in function\<lparr>call_count := call_count function + 1\<rparr>)"

definition AddFunctionTime :: "string \<Rightarrow> u64 \<Rightarrow> FunctionInfoMap \<Rightarrow> FunctionInfoMap" where
  "AddFunctionTime name time function_info_map =
     (if map_of function_info_map name = None
      then insort_key fst
             (name, \<lparr>total_time = time, min_time = time, max_time = time, call_count = 1\<rparr>)
             function_info_map
      else AList.map_entry name (update_function time) function_info_map)"

text \<open>
  A run of the collector: the calls \<^verbatim>\<open>AddFunctionTime(name, time)\<close> that
  \<^verbatim>\<open>OnFunctionExit\<close> makes, one after the other, on the map of a collector.
  \<open>times_of name calls\<close> are the elapsed values passed with \<open>name\<close>, in call order.
\<close>

definition run_calls :: "(string \<times> u64) list \<Rightarrow> FunctionInfoMap \<Rightarrow> FunctionInfoMap" where
  "run_calls calls function_info_map =
     foldl (\<lambda>m c. AddFunctionTime (fst c) (snd c) m) function_info_map calls"

definition times_of :: "string \<Rightarrow> (string \<times> u64) list \<Rightarrow> u64 list" where
  "times_of name calls = map snd (filter (\<lambda>c. fst c = name) calls)"

text \<open>
  The statistics that a list of elapsed values determines, for stating what a run leaves
  in the map: nothing for no call; otherwise the sum (in 64-bit arithmetic), the least,
  the greatest and the number of the values.
\<close>

definition stat_of :: "u64 list \<Rightarrow> Function option" where
  "stat_of ts =
     (if ts = [] then None
      else Some \<lparr>total_time = sum_list ts, min_time = Min (set ts), max_time = Max (set ts),
                 call_count = of_nat (length ts)\<rparr>)"

text \<open>
  The predicate that the spec gives as the invariant of an entry: a count of at least 1
  and an average, by the integer division of \<^verbatim>\<open>PrintFunctionsTable\<close>, between the
  minimum and the maximum.
\<close>

definition FunctionStat_inv :: "Function \<Rightarrow> bool" where
  "FunctionStat_inv f =
     (1 \<le> call_count f \<and> min_time f \<le> total_time f div call_count f
      \<and> total_time f div call_count f \<le> max_time f)"

subsection \<open>PrintFunctionsTable (lines 88-131)\<close>

text \<open>
  Modelled from the spec: \<^verbatim>\<open>utils::Comparator\<close>, the ordering of the
  \<^verbatim>\<open>std::set\<close> that \<^verbatim>\<open>PrintFunctionsTable\<close> fills, is declared in \<^verbatim>\<open>utils.h\<close>, which
  is not among the sources. The spec orders the presentation by \<open>total_time\<close> descending,
  ties broken by \<open>call_count\<close> descending, which is the order of
  \<^verbatim>\<open>Function::operator>\<close>; entries whose statistics do not differ
  (\<^verbatim>\<open>Function::operator!=\<close> is false) are left to \<open>name_gt\<close>, an order on the names that
  is a parameter here.
\<close>

definition Comparator ::
  "(string \<Rightarrow> string \<Rightarrow> bool) \<Rightarrow> string \<times> Function \<Rightarrow> string \<times> Function \<Rightarrow> bool" where
  "Comparator name_gt left right =
     (if Function_ne (snd left) (snd right) then Function_gt (snd left) (snd right)
      else name_gt (fst left) (fst right))"










text \<open>
  The order of presentation: by \<open>total_time\<close> descending, ties broken by \<open>call_count\<close>
  descending; on the statistics of two entries, and on two lines of the table.
\<close>

definition ge_stat :: "Function \<Rightarrow> Function \<Rightarrow> bool" where
  "ge_stat a b =
     (total_time a > total_time b \<or> (total_time a = total_time b \<and> call_count a \<ge> call_count b))"







subsection \<open>Threads that call AddFunctionTime\<close>

text \<open>
  \<^verbatim>\<open>AddFunctionTime\<close> statement by statement, for calls made from several threads. The
  data members that matter are \<^verbatim>\<open>lock_\<close> (the thread that holds the mutex, if any) and
  \<^verbatim>\<open>function_info_map_\<close>. A thread is outside the function, or past one of its
  statements: the \<^verbatim>\<open>lock_guard\<close> (line 156), the test
  \<^verbatim>\<open>function_info_map_.count(name) == 0\<close> (line 157) whose outcome it remembers, or the
  write of the branch taken (line 158, or lines 160 to 168); leaving the function
  releases the mutex. With its program counter a thread carries the calls it still has
  to make, the first of which is the call in progress. The fields are named \<open>lock\<close> and
  \<open>function_info_map\<close>, without the trailing underscore of the source.
\<close>

record collector =
  lock :: "nat option"
  function_info_map :: FunctionInfoMap

datatype pc = Outside | Locked | Tested bool | Written

type_synonym thread = "pc \<times> (string \<times> u64) list"

text \<open>
  \<^verbatim>\<open>function_info_map_[name]\<close> adds a value-initialised entry when the name has none.
  The write of a branch goes through it: the \<^verbatim>\<open>then\<close> branch assigns the new statistics
  to the entry, the \<^verbatim>\<open>else\<close> branch updates the entry in place.
\<close>

definition subscript :: "string \<Rightarrow> FunctionInfoMap \<Rightarrow> FunctionInfoMap" where
  "subscript name m =
     (if map_of m name = None
      then insort_key fst
             (name, \<lparr>total_time = 0, min_time = 0, max_time = 0, call_count = 0\<rparr>) m
      else m)"

definition write_entry :: "bool \<Rightarrow> string \<Rightarrow> u64 \<Rightarrow> FunctionInfoMap \<Rightarrow> FunctionInfoMap" where
  "write_entry count_is_0 name time m =
     (if count_is_0
      then AList.map_entry name
             (\<lambda>_. \<lparr>total_time = time, min_time = time, max_time = time, call_count = 1\<rparr>)
             (subscript name m)
      else AList.map_entry name (update_function time) (subscript name m))"

inductive step :: "collector \<times> thread list \<Rightarrow> collector \<times> thread list \<Rightarrow> bool" where
  acquire_lock:
    "i < length ts \<Longrightarrow> ts ! i = (Outside, c # cs) \<Longrightarrow> lock col = None \<Longrightarrow>
     step (col, ts) (col\<lparr>lock := Some i\<rparr>, ts[i := (Locked, c # cs)])"
| test_count:
    "i < length ts \<Longrightarrow> ts ! i = (Locked, (name, time) # cs) \<Longrightarrow>
     step (col, ts)
       (col, ts[i := (Tested (map_of (function_info_map col) name = None), (name, time) # cs)])"
| write_map:
    "i < length ts \<Longrightarrow> ts ! i = (Tested b, (name, time) # cs) \<Longrightarrow>
     step (col, ts)
       (col\<lparr>function_info_map := write_entry b name time (function_info_map col)\<rparr>,
        ts[i := (Written, (name, time) # cs)])"
| release_lock:
    "i < length ts \<Longrightarrow> ts ! i = (Written, c # cs) \<Longrightarrow>
     step (col, ts) (col\<lparr>lock := None\<rparr>, ts[i := (Outside, cs)])"

text \<open>
  A new collector with one thread per program (the calls the thread is to make), and the
  states in which every thread has made all its calls.
\<close>

definition initial :: "(string \<times> u64) list list \<Rightarrow> collector \<times> thread list" where
  "initial programs =
     (\<lparr>lock = None, function_info_map = []\<rparr>, map (Pair Outside) programs)"

definition finished :: "thread list \<Rightarrow> bool" where
  "finished ts = list_all (\<lambda>t. t = (Outside, [])) ts"

text \<open>
  For the proofs: the calls of a thread that have not taken effect yet, and what holds
  in every state that a run reaches. A thread past \<^verbatim>\<open>lock_guard\<close> holds the mutex; the
  outcome a thread remembers of its test is still the outcome of the test on the map;
  the map is the result of some sequence of whole calls, which together with the calls
  still to take effect are the calls of the programs.
\<close>

fun remaining :: "thread \<Rightarrow> (string \<times> u64) list" where
  "remaining (p, cs) = (if p = Written then tl cs else cs)"

definition invariant :: "(string \<times> u64) list list \<Rightarrow> collector \<times> thread list \<Rightarrow> bool" where
  "invariant programs s =
     (case s of (col, ts) \<Rightarrow>
        (\<forall>i < length ts. fst (ts ! i) \<noteq> Outside \<longrightarrow> lock col = Some i)
        \<and> (\<forall>i < length ts. \<forall>b. fst (ts ! i) = Tested b \<longrightarrow>
              b = (map_of (function_info_map col) (fst (hd (snd (ts ! i)))) = None))
        \<and> (\<exists>done_calls. function_info_map col = run_calls done_calls []
              \<and> mset done_calls + sum_list (map (mset \<circ> remaining) ts)
                  = mset (concat programs)))"

section \<open>The record iterator and the tests that drain a buffer (main\_zegemm\_fixture.cc)\<close>

subsection \<open>Records and buffers\<close>

text \<open>
  The status values and the record kinds that the tests name. A record starts with the
  common header: its kind and its size in bytes. A header whose tag is none of the kinds
  has \<open>view_kind = None\<close>.
\<close>

datatype pti_result =
  PTI_SUCCESS | PTI_STATUS_END_OF_BUFFER | PTI_ERROR_BAD_ARGUMENT | PTI_ERROR_INTERNAL

datatype pti_view_kind =
  PTI_VIEW_INVALID
  | PTI_VIEW_DEVICE_GPU_KERNEL
  | PTI_VIEW_DEVICE_GPU_MEM_COPY
  | PTI_VIEW_DEVICE_GPU_MEM_FILL
  | PTI_VIEW_EXTERNAL_CORRELATION
  | PTI_VIEW_COLLECTION_OVERHEAD

record pti_view_record_base =
  view_kind :: "pti_view_kind option"
  struct_size :: nat

text \<open>
  A buffer is the sequence of the records written into it, back to back; a record takes
  \<open>struct_size\<close> bytes. \<open>buffer_size\<close> is the number of bytes they take together, and
  \<open>header_at buf off\<close> is the header that starts at byte \<open>off\<close>, if one does.
\<close>

type_synonym pti_buffer = "pti_view_record_base list"

definition buffer_size :: "pti_buffer \<Rightarrow> nat" where
  "buffer_size buf = sum_list (map struct_size buf)"

fun header_at :: "pti_buffer \<Rightarrow> nat \<Rightarrow> pti_view_record_base option" where
  "header_at [] off = None"
| "header_at (r # rs) off =
     (if off = 0 then Some r
      else if off < struct_size r then None
      else header_at rs (off - struct_size r))"

subsection \<open>ptiViewGetNextRecord\<close>

text \<open>
  The destination \<^verbatim>\<open>pti_view_record_base** record\<close> of the iterator: the cursor (the
  offset of the next header to read) and the view last returned, \<open>None\<close> for
  \<^verbatim>\<open>nullptr\<close>. A test starts with \<^verbatim>\<open>current_record = nullptr\<close>.
\<close>

record record_cursor =
  cursor :: nat
  current_record :: "pti_view_record_base option"

definition start_cursor :: record_cursor where
  "start_cursor = \<lparr>cursor = 0, current_record = None\<rparr>"

text \<open>
  Modelled from the spec: \<^verbatim>\<open>ptiViewGetNextRecord\<close> is declared in \<^verbatim>\<open>pti/pti_view.h\<close> and
  defined in the library, neither of which is among the sources; only the tests that call
  it are. Section 4.4 of the spec: \<^verbatim>\<open>BAD_ARGUMENT\<close> if the destination is null, whatever
  the buffer; otherwise \<^verbatim>\<open>END_OF_BUFFER\<close> for a null buffer, whatever the size, and when
  the cursor has reached \<open>size\<close> exactly; otherwise the header at the cursor is read, and
  a header that cannot be read, an unrecognized kind, a \<open>struct_size\<close> below the size of
  the common header or one that takes the cursor past \<open>size\<close> is \<^verbatim>\<open>ERROR_INTERNAL\<close>,
  without advancing; otherwise the cursor advances by \<open>struct_size\<close> and the view at the
  old cursor is returned. The size of the common header is the parameter \<open>header_size\<close>;
  the size argument is written \<open>size'\<close>.
\<close>

definition ptiViewGetNextRecord ::
  "nat \<Rightarrow> pti_buffer option \<Rightarrow> nat \<Rightarrow> record_cursor option
     \<Rightarrow> pti_result \<times> record_cursor option" where
  "ptiViewGetNextRecord header_size buffer size' record =
     (case record of
        None \<Rightarrow> (PTI_ERROR_BAD_ARGUMENT, None)
      | Some c \<Rightarrow>
          (case buffer of
             None \<Rightarrow> (PTI_STATUS_END_OF_BUFFER, Some c)
           | Some buf \<Rightarrow>
               if cursor c = size' then (PTI_STATUS_END_OF_BUFFER, Some c)
               else
                 (case header_at buf (cursor c) of
                    None \<Rightarrow> (PTI_ERROR_INTERNAL, Some c)
                  | Some h \<Rightarrow>
                      if view_kind h = None \<or> struct_size h < header_size
                         \<or> size' < cursor c + struct_size h
                      then (PTI_ERROR_INTERNAL, Some c)
                      else (PTI_SUCCESS,
                            Some \<lparr>cursor = cursor c + struct_size h,
                                  current_record = Some h\<rparr>))))"

text \<open>
  A consumer's drain loop, as in \<^verbatim>\<open>BufferCompleted\<close> (lines 297-305): call the iterator
  until the status is not \<^verbatim>\<open>PTI_SUCCESS\<close>; here the views are collected in order, and the
  loop returns them with the status that ended it. The loop need not end (a record of
  size 0 would be returned forever if \<open>header_size\<close> were 0), hence the option.
\<close>

definition view_of :: "record_cursor option \<Rightarrow> pti_view_record_base list" where
  "view_of record =
     (case record of
        None \<Rightarrow> []
      | Some c \<Rightarrow> (case current_record c of None \<Rightarrow> [] | Some h \<Rightarrow> [h]))"

partial_function (option) drain ::
  "nat \<Rightarrow> pti_buffer option \<Rightarrow> nat \<Rightarrow> record_cursor option \<Rightarrow> pti_view_record_base list
     \<Rightarrow> (pti_result \<times> pti_view_record_base list) option" where
  "drain header_size buffer size' record views =
     (case ptiViewGetNextRecord header_size buffer size' record of
        (buf_status, record') \<Rightarrow>
          if buf_status = PTI_SUCCESS
          then drain header_size buffer size' record' (views @ view_of record')
          else Some (buf_status, views))"

subsection \<open>The test buffer (lines 479-495)\<close>

definition kNumMemRecs :: nat where "kNumMemRecs = 15"
definition kNumExtRecs :: nat where "kNumExtRecs = 100"
definition kNumKernelRecs :: nat where "kNumKernelRecs = 3"
definition kNumOhRecs :: nat where "kNumOhRecs = 1"

definition kTotalRecs :: nat where
  "kTotalRecs = 2 * kNumOhRecs + 2 * kNumMemRecs + kNumKernelRecs + kNumExtRecs"

text \<open>
  Modelled from the spec: \<^verbatim>\<open>CreateFullBuffer\<close> and \<^verbatim>\<open>RecordInserts\<close> come from
  \<^verbatim>\<open>utils/test_helpers.h\<close>, which is not among the sources. The spec's scenario: the
  buffer contains, in order, the records of each \<^verbatim>\<open>RecordInserts<T, N>\<close>, that is \<open>N\<close>
  records of the kind of \<open>T\<close>. The size \<^verbatim>\<open>sizeof(T)\<close> of a record of each kind is the
  parameter \<open>record_size\<close>. \<^verbatim>\<open>test_buf_.size()\<close> is \<open>buffer_size\<close> of the result.
\<close>

definition RecordInserts :: "(pti_view_kind \<Rightarrow> nat) \<Rightarrow> pti_view_kind \<Rightarrow> nat \<Rightarrow> pti_buffer" where
  "RecordInserts record_size kind n =
     replicate n \<lparr>view_kind = Some kind, struct_size = record_size kind\<rparr>"

definition test_buf :: "(pti_view_kind \<Rightarrow> nat) \<Rightarrow> pti_buffer" where
  "test_buf record_size =
     RecordInserts record_size PTI_VIEW_COLLECTION_OVERHEAD kNumOhRecs
     @ RecordInserts record_size PTI_VIEW_DEVICE_GPU_MEM_COPY kNumMemRecs
     @ RecordInserts record_size PTI_VIEW_DEVICE_GPU_MEM_FILL kNumMemRecs
     @ RecordInserts record_size PTI_VIEW_EXTERNAL_CORRELATION kNumExtRecs
     @ RecordInserts record_size PTI_VIEW_DEVICE_GPU_KERNEL kNumKernelRecs
     @ RecordInserts record_size PTI_VIEW_COLLECTION_OVERHEAD kNumOhRecs"

subsection \<open>RegularParseRecordsTest (lines 537-569)\<close>

text \<open>
  The counters of the test, its loop and the test itself. The loop ends with the counters
  at \<^verbatim>\<open>END_OF_BUFFER\<close>, and with \<^verbatim>\<open>FAIL()\<close> at an error status; reading
  \<^verbatim>\<open>current_record->_view_kind\<close> through a null pointer is an error of its own. The test
  passes when the loop ends with counters that meet the four expectations.
\<close>

record counters =
  total_records :: nat
  number_of_memory_copies :: nat
  number_of_kernel :: nat
  number_of_overhead :: nat

datatype test_failure = FAIL | NullDereference

definition count_record :: "pti_view_record_base \<Rightarrow> counters \<Rightarrow> counters" where
  "count_record h n =
     (let n = n\<lparr>total_records := total_records n + 1\<rparr>;
          n = (if view_kind h = Some PTI_VIEW_DEVICE_GPU_KERNEL
               then n\<lparr>number_of_kernel := number_of_kernel n + 1\<rparr> else n);
          n = (if view_kind h = Some PTI_VIEW_DEVICE_GPU_MEM_COPY
               then n\<lparr>number_of_memory_copies := number_of_memory_copies n + 1\<rparr> else n)
      in (if view_kind h = Some PTI_VIEW_COLLECTION_OVERHEAD
          then n\<lparr>number_of_overhead := number_of_overhead n + 1\<rparr> else n))"

partial_function (option) RegularParseRecords_loop ::
  "nat \<Rightarrow> pti_buffer option \<Rightarrow> nat \<Rightarrow> record_cursor option \<Rightarrow> counters
     \<Rightarrow> (test_failure + counters) option" where
  "RegularParseRecords_loop header_size buffer size' current n =
     (case ptiViewGetNextRecord header_size buffer size' current of
        (result, current') \<Rightarrow>
          if result = PTI_STATUS_END_OF_BUFFER then Some (Inr n)
          else if result = PTI_ERROR_INTERNAL then Some (Inl FAIL)
          else if result = PTI_ERROR_BAD_ARGUMENT then Some (Inl FAIL)
          else (case current' of
                  None \<Rightarrow> Some (Inl NullDereference)
                | Some c \<Rightarrow>
                    (case current_record c of
                       None \<Rightarrow> Some (Inl NullDereference)
                     | Some h \<Rightarrow>
                         RegularParseRecords_loop header_size buffer size' current'
                           (count_record h n))))"

definition RegularParseRecordsTest ::
  "nat \<Rightarrow> (pti_view_kind \<Rightarrow> nat) \<Rightarrow> (test_failure + counters) option" where
  "RegularParseRecordsTest header_size record_size =
     RegularParseRecords_loop header_size (Some (test_buf record_size))
       (buffer_size (test_buf record_size)) (Some start_cursor)
       \<lparr>total_records = 0, number_of_memory_copies = 0, number_of_kernel = 0,
        number_of_overhead = 0\<rparr>"

definition RegularParseRecords_expectations :: "counters \<Rightarrow> bool" where
  "RegularParseRecords_expectations n =
     (number_of_memory_copies n = kNumMemRecs \<and> number_of_overhead n = 2 * kNumOhRecs
      \<and> number_of_kernel n = kNumKernelRecs \<and> total_records n = kTotalRecs)"

subsection \<open>CheckBufferEndTest (lines 519-535)\<close>

text \<open>
  The loop counts every status other than \<^verbatim>\<open>END_OF_BUFFER\<close> as a record and returns
  the count with the destination as the last call left it. The test then makes one more
  call. What it checks: the count, that \<^verbatim>\<open>current_record\<close> is not null after the loop
  and after the further call, and that the further call returns \<^verbatim>\<open>END_OF_BUFFER\<close>.
\<close>

partial_function (option) CheckBufferEnd_loop ::
  "nat \<Rightarrow> pti_buffer option \<Rightarrow> nat \<Rightarrow> record_cursor option \<Rightarrow> nat
     \<Rightarrow> (nat \<times> record_cursor option) option" where
  "CheckBufferEnd_loop header_size buffer size' current n_total =
     (case ptiViewGetNextRecord header_size buffer size' current of
        (result, current') \<Rightarrow>
          if result = PTI_STATUS_END_OF_BUFFER then Some (n_total, current')
          else CheckBufferEnd_loop header_size buffer size' current' (n_total + 1))"

definition not_nullptr :: "record_cursor option \<Rightarrow> bool" where
  "not_nullptr record = (view_of record \<noteq> [])"

definition CheckBufferEndTest :: "nat \<Rightarrow> (pti_view_kind \<Rightarrow> nat) \<Rightarrow> bool option" where
  "CheckBufferEndTest header_size record_size =
     (let buffer = Some (test_buf record_size); size' = buffer_size (test_buf record_size)
      in case CheckBufferEnd_loop header_size buffer size' (Some start_cursor) 0 of
           None \<Rightarrow> None
         | Some (n_total, current) \<Rightarrow>
             (case ptiViewGetNextRecord header_size buffer size' current of
                (result, current') \<Rightarrow>
                  Some (not_nullptr current \<and> n_total = kTotalRecs \<and> not_nullptr current'
                        \<and> result = PTI_STATUS_END_OF_BUFFER)))"

text \<open>
  A buffer is well formed for the iterator when every record has a recognized kind and a
  size that is not zero and not below the size of the common header.
\<close>

definition well_formed :: "nat \<Rightarrow> pti_buffer \<Rightarrow> bool" where
  "well_formed header_size buf =
     list_all (\<lambda>r. view_kind r \<noteq> None \<and> header_size \<le> struct_size r \<and> 0 < struct_size r) buf"

text \<open>
  The number of records of a kind in a buffer, and sizes for the records of each kind
  with which the tests can be run: a common header of 8 bytes and a size above it for
  every kind.
\<close>

definition count_kind :: "pti_view_kind \<Rightarrow> pti_buffer \<Rightarrow> nat" where
  "count_kind kind buf = length (filter (\<lambda>r. view_kind r = Some kind) buf)"

definition example_header_size :: nat where
  "example_header_size = 8"

fun example_record_size :: "pti_view_kind \<Rightarrow> nat" where
  "example_record_size PTI_VIEW_INVALID = 8"
| "example_record_size PTI_VIEW_DEVICE_GPU_KERNEL = 184"
| "example_record_size PTI_VIEW_DEVICE_GPU_MEM_COPY = 120"
| "example_record_size PTI_VIEW_DEVICE_GPU_MEM_FILL = 112"
| "example_record_size PTI_VIEW_EXTERNAL_CORRELATION = 24"
| "example_record_size PTI_VIEW_COLLECTION_OVERHEAD = 48"

section \<open>Properties of the comparison operators\<close>

text \<open>
  C10. The comparison operators of \<^verbatim>\<open>Function\<close> never look at \<open>min_time\<close> and
  \<open>max_time\<close>: replacing these two fields by any values in either operand changes
  neither \<open>f > g\<close> nor \<open>f != g\<close>, and two values with the same \<open>total_time\<close> and the
  same \<open>call_count\<close> are neither greater nor unequal, whatever their minima and maxima.
\<close>

theorem Function_compare_ignores_min_max:
  "Function_gt (f\<lparr>min_time := a, max_time := b\<rparr>) (g\<lparr>min_time := c, max_time := d\<rparr>)
     = Function_gt f g
   \<and> Function_ne (f\<lparr>min_time := a, max_time := b\<rparr>) (g\<lparr>min_time := c, max_time := d\<rparr>)
     = Function_ne f g
   \<and> \<not> Function_gt \<lparr>total_time = t, min_time = a, max_time = b, call_count = n\<rparr>
                    \<lparr>total_time = t, min_time = c, max_time = d, call_count = n\<rparr>
   \<and> \<not> Function_ne \<lparr>total_time = t, min_time = a, max_time = b, call_count = n\<rparr>
                    \<lparr>total_time = t, min_time = c, max_time = d, call_count = n\<rparr>"
  by (simp add: Function_gt_def Function_ne_def)

section \<open>Properties of AddFunctionTime\<close>

lemma map_of_insort_key_fst:
  "map_of m k = None \<Longrightarrow> map_of (insort_key fst (k, v) m) = (map_of m)(k \<mapsto> v)"
  by (induction m) (auto simp: fun_eq_iff)

lemma update_function_fields:
  "update_function t f =
     \<lparr>total_time = total_time f + t, min_time = min (min_time f) t,
      max_time = max (max_time f) t, call_count = call_count f + 1\<rparr>"
  by (auto simp: update_function_def Let_def min_def max_def)

lemma map_of_AddFunctionTime:
  "map_of (AddFunctionTime name t m) =
     (map_of m)(name \<mapsto> (case map_of m name of
         None \<Rightarrow> \<lparr>total_time = t, min_time = t, max_time = t, call_count = 1\<rparr>
       | Some f \<Rightarrow> update_function t f))"
  by (auto simp: AddFunctionTime_def map_of_insort_key_fst map_of_map_entry fun_eq_iff split: option.splits)

lemma stat_of_snoc:
  "stat_of (ts @ [t]) =
     Some (case stat_of ts of
         None \<Rightarrow> \<lparr>total_time = t, min_time = t, max_time = t, call_count = 1\<rparr>
       | Some f \<Rightarrow> update_function t f)"
proof (cases "ts = []")
  case True
  then show ?thesis by (simp add: stat_of_def)
next
  case False
  then have "Min (insert t (set ts)) = min (Min (set ts)) t"
    and "Max (insert t (set ts)) = max (Max (set ts)) t"
    by (simp_all add: min.commute max.commute)
  with False show ?thesis
    by (simp add: stat_of_def update_function_fields)
qed

lemma times_of_snoc:
  "times_of name (calls @ [c]) =
     (if fst c = name then times_of name calls @ [snd c] else times_of name calls)"
  by (simp add: times_of_def)

lemma map_of_run_calls:
  "map_of (run_calls calls []) name = stat_of (times_of name calls)"
proof (induction calls rule: rev_induct)
  case Nil
  then show ?case by (simp add: run_calls_def times_of_def stat_of_def)
next
  case (snoc c calls)
  have step: "run_calls (calls @ [c]) [] = AddFunctionTime (fst c) (snd c) (run_calls calls [])"
    by (simp add: run_calls_def)
  show ?case
    using snoc
    by (cases "fst c = name") (auto simp: step map_of_AddFunctionTime times_of_snoc stat_of_snoc)
qed

lemma unat_sum_list: "unat (sum_list (ts :: u64 list)) = sum_list (map unat ts) mod 2 ^ 64"
  by (induction ts) (simp_all add: unat_word_ariths mod_simps)

lemma mono_unat: "mono (unat :: u64 \<Rightarrow> nat)"
  by (rule monoI) (simp add: word_le_nat_alt)

lemma unat_Min: "ts \<noteq> [] \<Longrightarrow> unat (Min (set (ts :: u64 list))) = Min (set (map unat ts))"
  using mono_Min_commute [OF mono_unat, of "set ts"] by simp

lemma unat_Max: "ts \<noteq> [] \<Longrightarrow> unat (Max (set (ts :: u64 list))) = Max (set (map unat ts))"
  using mono_Max_commute [OF mono_unat, of "set ts"] by simp

lemma unat_of_nat_len: "unat (of_nat n :: u64) = n mod 2 ^ 64"
  by (simp add: unat_of_nat)

lemma sum_list_lower: "\<forall>x\<in>set xs. a \<le> x \<Longrightarrow> a * length xs \<le> sum_list (xs :: nat list)"
  by (induction xs) (auto simp: add_mono)

lemma sum_list_upper: "\<forall>x\<in>set xs. x \<le> b \<Longrightarrow> sum_list (xs :: nat list) \<le> b * length xs"
  by (induction xs) (auto simp: add_mono)


lemma stat_of_SomeD:
  assumes "stat_of ts = Some f"
  shows "ts \<noteq> []"
    and "unat (call_count f) = length ts mod 2 ^ 64"
    and "unat (total_time f) = sum_list (map unat ts) mod 2 ^ 64"
    and "unat (min_time f) = Min (set (map unat ts))"
    and "unat (max_time f) = Max (set (map unat ts))"
  using assms
  by (auto simp: stat_of_def unat_sum_list unat_of_nat_len unat_Min unat_Max
        simp del: set_map split: if_splits)

text \<open>
  C1 (as amended). One call: the first call with a name creates the entry with total,
  minimum and maximum equal to the elapsed value and a count of 1; a later call adds the
  elapsed value to the total, keeps the smaller as minimum and the larger as maximum, and
  adds 1 to the count. A sequence of calls on a new collector: a name never called has no
  entry; for a name that was called, the count is the number of calls with that name and
  the total is the sum of their elapsed values, both modulo \<open>2 ^ 64\<close> (the fields are
  \<^verbatim>\<open>uint64_t\<close>), and the minimum and maximum are the true least and greatest of the
  elapsed values.
\<close>

theorem AddFunctionTime_statistics:
  "map_of (AddFunctionTime name time m) name =
     Some (case map_of m name of
         None \<Rightarrow> \<lparr>total_time = time, min_time = time, max_time = time, call_count = 1\<rparr>
       | Some f \<Rightarrow>
           \<lparr>total_time = total_time f + time, min_time = min (min_time f) time,
            max_time = max (max_time f) time, call_count = call_count f + 1\<rparr>)
   \<and> (times_of name calls = [] \<longrightarrow> map_of (run_calls calls []) name = None)
   \<and> (times_of name calls \<noteq> [] \<longrightarrow>
        (\<exists>f. map_of (run_calls calls []) name = Some f
           \<and> unat (call_count f) = length (times_of name calls) mod 2 ^ 64
           \<and> unat (total_time f) = sum_list (map unat (times_of name calls)) mod 2 ^ 64
           \<and> unat (min_time f) = Min (set (map unat (times_of name calls)))
           \<and> unat (max_time f) = Max (set (map unat (times_of name calls)))))"
proof (intro conjI impI)
  show "map_of (AddFunctionTime name time m) name =
     Some (case map_of m name of
         None \<Rightarrow> \<lparr>total_time = time, min_time = time, max_time = time, call_count = 1\<rparr>
       | Some f \<Rightarrow>
           \<lparr>total_time = total_time f + time, min_time = min (min_time f) time,
            max_time = max (max_time f) time, call_count = call_count f + 1\<rparr>)"
    by (simp add: map_of_AddFunctionTime update_function_fields split: option.splits)
next
  assume "times_of name calls = []"
  then show "map_of (run_calls calls []) name = None"
    by (simp add: map_of_run_calls stat_of_def)
next
  assume "times_of name calls \<noteq> []"
  then obtain f where f: "stat_of (times_of name calls) = Some f"
    by (auto simp: stat_of_def)
  then have "map_of (run_calls calls []) name = Some f"
    by (simp add: map_of_run_calls)
  with stat_of_SomeD [OF f]
  show "\<exists>f. map_of (run_calls calls []) name = Some f
           \<and> unat (call_count f) = length (times_of name calls) mod 2 ^ 64
           \<and> unat (total_time f) = sum_list (map unat (times_of name calls)) mod 2 ^ 64
           \<and> unat (min_time f) = Min (set (map unat (times_of name calls)))
           \<and> unat (max_time f) = Max (set (map unat (times_of name calls)))"
    by blast
qed

theorem AddFunctionTime_statistics_witness:
  "times_of ''f'' [(''f'', 5), (''g'', 7), (''f'', 3)] \<noteq> []
   \<and> (\<exists>f. map_of (run_calls [(''f'', 5), (''g'', 7), (''f'', 3)] []) ''f'' = Some f
        \<and> unat (call_count f) = 2 \<and> unat (total_time f) = 8
        \<and> unat (min_time f) = 3 \<and> unat (max_time f) = 5)"
proof -
  let ?calls = "[(''f'', 5), (''g'', 7), (''f'', 3)] :: (string \<times> u64) list"
  have ts: "times_of ''f'' ?calls = [5, 3]"
    by (simp add: times_of_def)
  then have ne: "times_of ''f'' ?calls \<noteq> []"
    by simp
  with AddFunctionTime_statistics [of "''f''" 0 "[]" ?calls]
  obtain f where "map_of (run_calls ?calls []) ''f'' = Some f"
    and "unat (call_count f) = length (times_of ''f'' ?calls) mod 2 ^ 64"
    and "unat (total_time f) = sum_list (map unat (times_of ''f'' ?calls)) mod 2 ^ 64"
    and "unat (min_time f) = Min (set (map unat (times_of ''f'' ?calls)))"
    and "unat (max_time f) = Max (set (map unat (times_of ''f'' ?calls)))"
    by blast
  then have "map_of (run_calls ?calls []) ''f'' = Some f
        \<and> unat (call_count f) = 2 \<and> unat (total_time f) = 8
        \<and> unat (min_time f) = 3 \<and> unat (max_time f) = 5"
    by (simp add: ts)
  then show ?thesis
    using ne by blast
qed

text \<open>
  The total is not the sum once the sum passes \<open>2 ^ 64\<close>: two calls with an elapsed
  value of \<open>2 ^ 63\<close> leave a total of 0, and their sum is \<open>2 ^ 64\<close>.
\<close>

theorem AddFunctionTime_total_time_wraps:
  "map_of (run_calls [(''f'', 9223372036854775808), (''f'', 9223372036854775808)] []) ''f''
     = Some \<lparr>total_time = 0, min_time = 9223372036854775808,
              max_time = 9223372036854775808, call_count = 2\<rparr>
   \<and> sum_list (map unat
        (times_of ''f'' [(''f'', 9223372036854775808), (''f'', 9223372036854775808)]))
     = 18446744073709551616"
  by (simp add: run_calls_def AddFunctionTime_def update_function_def times_of_def)

lemma FunctionStat_inv_stat_of:
  assumes f: "stat_of ts = Some f"
    and total: "sum_list (map unat ts) < 2 ^ 64"
    and count: "length ts < 2 ^ 64"
  shows "FunctionStat_inv f"
proof -
  let ?ts = "map unat ts"
  note d = stat_of_SomeD [OF f]
  have len: "unat (call_count f) = length ?ts" and pos: "0 < length ?ts"
    using d(1,2) count by simp_all
  have sum: "unat (total_time f) = sum_list ?ts"
    using d(3) total by simp
  have fin: "finite (set ?ts)" "set ?ts \<noteq> {}"
    using d(1) by simp_all
  have "unat (min_time f) * length ?ts \<le> sum_list ?ts"
    unfolding d(4) by (rule sum_list_lower) (use fin in simp)
  then have lower: "unat (min_time f) \<le> sum_list ?ts div length ?ts"
    using pos by (simp add: less_eq_div_iff_mult_less_eq)
  have "sum_list ?ts \<le> unat (max_time f) * length ?ts"
    unfolding d(5) by (rule sum_list_upper) (use fin in simp)
  then have "sum_list ?ts div length ?ts \<le> unat (max_time f) * length ?ts div length ?ts"
    by (rule div_le_mono)
  then have upper: "sum_list ?ts div length ?ts \<le> unat (max_time f)"
    using pos by simp
  have one: "1 \<le> call_count f"
    using len pos by (simp add: word_le_nat_alt Suc_le_eq)
  show ?thesis
    using one lower upper by (simp add: FunctionStat_inv_def word_le_nat_alt unat_div len sum)
qed

section \<open>Properties of PrintFunctionsTable\<close>


lemma sorted_keys_AddFunctionTime:
  "sorted (map fst m) \<Longrightarrow> sorted (map fst (AddFunctionTime name t m))"
proof -
  have "map fst (AList.map_entry name f m) = map fst m" for f
    by (induction m) auto
  then show "sorted (map fst m) \<Longrightarrow> sorted (map fst (AddFunctionTime name t m))"
    by (simp add: AddFunctionTime_def sorted_insort_key)
qed





lemma not_Comparator_ge_stat: "\<not> Comparator name_gt l r \<Longrightarrow> ge_stat (snd r) (snd l)"
  by (auto simp: Comparator_def Function_ne_def Function_gt_def ge_stat_def split: if_splits)






























section \<open>Calls from several threads\<close>

lemma stat_of_mset: "mset ts = mset ts' \<Longrightarrow> stat_of ts = stat_of ts'"
proof -
  assume eq: "mset ts = mset ts'"
  then have "set ts = set ts'" "length ts = length ts'" "sum_list ts = sum_list ts'"
    by (auto dest: mset_eq_setD mset_eq_length simp flip: sum_mset_sum_list)
  moreover from eq have "ts = [] \<longleftrightarrow> ts' = []"
    by (auto dest: mset_eq_length)
  ultimately show ?thesis by (simp add: stat_of_def)
qed

lemma mset_times_of:
  assumes "mset calls = mset calls'"
  shows "mset (times_of name calls) = mset (times_of name calls')"
proof -
  have "mset (times_of name cs) = image_mset snd (filter_mset (\<lambda>c. fst c = name) (mset cs))" for cs
    by (simp add: times_of_def)
  then show ?thesis by (simp only: assms)
qed

lemma run_calls_permuted:
  assumes "mset calls = mset calls'"
  shows "map_of (run_calls calls []) name = map_of (run_calls calls' []) name"
  unfolding map_of_run_calls by (rule stat_of_mset [OF mset_times_of [OF assms]])

lemma stat_of_two_values:
  assumes "0 < n" "0 < k" "t \<le> t'"
  shows "stat_of (times_of name (replicate n (name, t) @ replicate k (name, t')))
   = Some \<lparr>total_time = of_nat n * t + of_nat k * t', min_time = t, max_time = t',
           call_count = of_nat (n + k)\<rparr>"
proof -
  have ts: "times_of name (replicate n (name, t) @ replicate k (name, t'))
    = replicate n t @ replicate k t'"
    by (simp add: times_of_def)
  have "set (replicate n t @ replicate k t') = {t, t'}"
    using assms by auto
  with assms show ?thesis
    unfolding ts by (simp add: stat_of_def sum_list_replicate min_absorb1 max_absorb2 del: set_append set_replicate)
qed

lemma map_entry_insort_key_fst:
  "map_of m name = None \<Longrightarrow>
   AList.map_entry name (\<lambda>_. v) (insort_key fst (name, z) m) = insort_key fst (name, v) m"
  by (induction m) (auto split: if_splits)

lemma write_entry_AddFunctionTime:
  "write_entry (map_of m name = None) name time m = AddFunctionTime name time m"
  by (simp add: write_entry_def subscript_def AddFunctionTime_def map_entry_insort_key_fst)

lemma run_calls_snoc:
  "run_calls (calls @ [(name, time)]) m = AddFunctionTime name time (run_calls calls m)"
  by (simp add: run_calls_def)

lemma sum_list_map_update:
  fixes f :: "'a \<Rightarrow> 'b multiset"
  shows "i < length ts \<Longrightarrow>
    sum_list (map f (ts[i := x])) + f (ts ! i) = sum_list (map f ts) + f x"
  by (induction ts arbitrary: i) (auto simp: nth_Cons' split: nat.splits)

lemma invariant_initial: "invariant programs (initial programs)"
proof -
  have "sum_list (map (mset \<circ> remaining) (map (Pair Outside) programs)) = mset (concat programs)"
    by (induction programs) simp_all
  then show ?thesis
    by (auto simp: invariant_def initial_def intro!: exI [of _ "[]"] simp: run_calls_def)
qed


lemma invariantD:
  assumes "invariant programs (col, ts)"
  shows "\<And>i. i < length ts \<Longrightarrow> fst (ts ! i) \<noteq> Outside \<Longrightarrow> lock col = Some i"
    and "\<And>i b. i < length ts \<Longrightarrow> fst (ts ! i) = Tested b \<Longrightarrow>
           b = (map_of (function_info_map col) (fst (hd (snd (ts ! i)))) = None)"
    and "\<exists>done_calls. function_info_map col = run_calls done_calls []
           \<and> mset done_calls + sum_list (map (mset \<circ> remaining) ts) = mset (concat programs)"
  using assms by (auto simp: invariant_def)

lemma invariantI:
  assumes "\<And>i. i < length ts \<Longrightarrow> fst (ts ! i) \<noteq> Outside \<Longrightarrow> lock col = Some i"
    and "\<And>i b. i < length ts \<Longrightarrow> fst (ts ! i) = Tested b \<Longrightarrow>
           b = (map_of (function_info_map col) (fst (hd (snd (ts ! i)))) = None)"
    and "function_info_map col = run_calls done_calls []"
    and "mset done_calls + sum_list (map (mset \<circ> remaining) ts) = mset (concat programs)"
  shows "invariant programs (col, ts)"
  using assms unfolding invariant_def by blast

lemma remaining_unchanged:
  assumes "i < length ts" and "remaining x = remaining (ts ! i)"
  shows "sum_list (map (mset \<circ> remaining) (ts[i := x])) = sum_list (map (mset \<circ> remaining) ts)"
  using sum_list_map_update [OF assms(1), of "mset \<circ> remaining" x] assms(2) by simp

lemma invariant_step:
  assumes "step s s'" and "invariant programs s"
  shows "invariant programs s'"
  using assms
proof (induction rule: step.induct)
  case (acquire_lock i ts c cs col)
  note inv = invariantD [OF acquire_lock.prems]
  from inv(3) obtain done_calls where d: "function_info_map col = run_calls done_calls []"
    "mset done_calls + sum_list (map (mset \<circ> remaining) ts) = mset (concat programs)"
    by blast
  have all_out: "fst (ts ! j) = Outside" if "j < length ts" for j
    using inv(1) [OF that] acquire_lock.hyps(3) by auto
  show ?case
  proof (rule invariantI [where done_calls = done_calls])
    fix j assume "j < length (ts[i := (Locked, c # cs)])"
      and "fst (ts[i := (Locked, c # cs)] ! j) \<noteq> Outside"
    then show "lock (col\<lparr>lock := Some i\<rparr>) = Some j"
      using all_out [of j] by (cases "j = i") auto
  next
    fix j b assume "j < length (ts[i := (Locked, c # cs)])"
      and "fst (ts[i := (Locked, c # cs)] ! j) = Tested b"
    then show "b = (map_of (function_info_map (col\<lparr>lock := Some i\<rparr>))
        (fst (hd (snd (ts[i := (Locked, c # cs)] ! j)))) = None)"
      using all_out [of j] by (cases "j = i") auto
  next
    show "function_info_map (col\<lparr>lock := Some i\<rparr>) = run_calls done_calls []"
      using d(1) by simp
  next
    show "mset done_calls + sum_list (map (mset \<circ> remaining) (ts[i := (Locked, c # cs)]))
      = mset (concat programs)"
      using d(2) acquire_lock.hyps by (simp add: remaining_unchanged)
  qed
next
  case (test_count i ts name time cs col)
  note inv = invariantD [OF test_count.prems]
  from inv(3) obtain done_calls where d: "function_info_map col = run_calls done_calls []"
    "mset done_calls + sum_list (map (mset \<circ> remaining) ts) = mset (concat programs)"
    by blast
  let ?ts' = "ts[i := (Tested (map_of (function_info_map col) name = None), (name, time) # cs)]"
  show ?case
  proof (rule invariantI [where done_calls = done_calls])
    fix j assume "j < length ?ts'" and "fst (?ts' ! j) \<noteq> Outside"
    then show "lock col = Some j"
      using inv(1) [of j] test_count.hyps by (cases "j = i") auto
  next
    fix j b assume "j < length ?ts'" and "fst (?ts' ! j) = Tested b"
    then show "b = (map_of (function_info_map col) (fst (hd (snd (?ts' ! j)))) = None)"
      using inv(2) [of j b] by (cases "j = i") auto
  next
    show "function_info_map col = run_calls done_calls []"
      by (rule d(1))
  next
    show "mset done_calls + sum_list (map (mset \<circ> remaining) ?ts') = mset (concat programs)"
      using d(2) test_count.hyps by (simp add: remaining_unchanged)
  qed
next
  case (write_map i ts b name time cs col)
  note inv = invariantD [OF write_map.prems]
  from inv(3) obtain done_calls where d: "function_info_map col = run_calls done_calls []"
    "mset done_calls + sum_list (map (mset \<circ> remaining) ts) = mset (concat programs)"
    by blast
  let ?ts' = "ts[i := (Written, (name, time) # cs)]"
  let ?col' = "col\<lparr>function_info_map := write_entry b name time (function_info_map col)\<rparr>"
  have holder: "lock col = Some i"
    using inv(1) [of i] write_map.hyps by simp
  have b: "b = (map_of (function_info_map col) name = None)"
    using inv(2) [of i b] write_map.hyps by simp
  show ?case
  proof (rule invariantI [where done_calls = "done_calls @ [(name, time)]"])
    fix j assume "j < length ?ts'" and "fst (?ts' ! j) \<noteq> Outside"
    then show "lock ?col' = Some j"
      using inv(1) [of j] holder by (cases "j = i") auto
  next
    fix j b' assume j: "j < length ?ts'" and t: "fst (?ts' ! j) = Tested b'"
    then have "j \<noteq> i" by auto
    moreover from j t this have "lock col = Some j"
      using inv(1) [of j] by auto
    ultimately have False using holder by simp
    then show "b' = (map_of (function_info_map ?col') (fst (hd (snd (?ts' ! j)))) = None)" ..
  next
    show "function_info_map ?col' = run_calls (done_calls @ [(name, time)]) []"
      by (simp add: b write_entry_AddFunctionTime run_calls_snoc d(1))
  next
    have "sum_list (map (mset \<circ> remaining) ?ts') + mset ((name, time) # cs)
        = sum_list (map (mset \<circ> remaining) ts) + mset cs"
      using sum_list_map_update [OF write_map.hyps(1), of "mset \<circ> remaining" "(Written, (name, time) # cs)"]
        write_map.hyps(2) by simp
    then have "sum_list (map (mset \<circ> remaining) ts)
        = sum_list (map (mset \<circ> remaining) ?ts') + {#(name, time)#}"
      by simp
    then show "mset (done_calls @ [(name, time)]) + sum_list (map (mset \<circ> remaining) ?ts')
      = mset (concat programs)"
      using d(2) by simp
  qed
next
  case (release_lock i ts c cs col)
  note inv = invariantD [OF release_lock.prems]
  from inv(3) obtain done_calls where d: "function_info_map col = run_calls done_calls []"
    "mset done_calls + sum_list (map (mset \<circ> remaining) ts) = mset (concat programs)"
    by blast
  let ?ts' = "ts[i := (Outside, cs)]"
  have holder: "lock col = Some i"
    using inv(1) [of i] release_lock.hyps by simp
  have others: "fst (ts ! j) = Outside" if "j < length ts" "j \<noteq> i" for j
    using inv(1) [of j] holder that by auto
  show ?case
  proof (rule invariantI [where done_calls = done_calls])
    fix j assume "j < length ?ts'" and "fst (?ts' ! j) \<noteq> Outside"
    then show "lock (col\<lparr>lock := None\<rparr>) = Some j"
      using others [of j] by (cases "j = i") auto
  next
    fix j b assume "j < length ?ts'" and "fst (?ts' ! j) = Tested b"
    then show "b = (map_of (function_info_map (col\<lparr>lock := None\<rparr>))
        (fst (hd (snd (?ts' ! j)))) = None)"
      using others [of j] by (cases "j = i") auto
  next
    show "function_info_map (col\<lparr>lock := None\<rparr>) = run_calls done_calls []"
      using d(1) by simp
  next
    show "mset done_calls + sum_list (map (mset \<circ> remaining) ?ts') = mset (concat programs)"
      using d(2) release_lock.hyps by (simp add: remaining_unchanged)
  qed
qed

lemma invariant_reachable:
  assumes "step\<^sup>*\<^sup>* (initial programs) s"
  shows "invariant programs s"
  using assms by (induction rule: rtranclp_induct) (auto intro: invariant_initial invariant_step)

lemma finished_remaining:
  "finished ts \<Longrightarrow> sum_list (map (mset \<circ> remaining) ts) = {#}"
  by (induction ts) (simp_all add: finished_def)

lemma finished_result:
  assumes "step\<^sup>*\<^sup>* (initial programs) (col, ts)" and "finished ts"
  shows "map_of (function_info_map col) name = stat_of (times_of name (concat programs))"
proof -
  from invariantD(3) [OF invariant_reachable [OF assms(1)]] finished_remaining [OF assms(2)]
  obtain done_calls where m: "function_info_map col = run_calls done_calls []"
    and "mset done_calls = mset (concat programs)"
    by auto
  then have "map_of (run_calls done_calls []) name = map_of (run_calls (concat programs) []) name"
    by (intro run_calls_permuted)
  then show ?thesis
    by (simp only: m map_of_run_calls)
qed


text \<open>
  In every state that a run reaches, at most one thread is inside \<^verbatim>\<open>AddFunctionTime\<close>.
\<close>

lemma mutual_exclusion:
  assumes "step\<^sup>*\<^sup>* (initial programs) (col, ts)"
    and "i < length ts" "fst (ts ! i) \<noteq> Outside"
    and "j < length ts" "fst (ts ! j) \<noteq> Outside"
  shows "i = j"
proof -
  note holder = invariantD(1) [OF invariant_reachable [OF assms(1)]]
  have "lock col = Some i" by (rule holder) fact+
  moreover have "lock col = Some j" by (rule holder) fact+
  ultimately show ?thesis by simp
qed

text \<open>
  Runs do finish: a thread that finds the mutex free can make its calls one after the
  other, and so can two threads in turn.
\<close>

lemma one_call:
  assumes i: "i < length ts" and t: "ts ! i = (Outside, (name, time) # cs)"
    and free: "lock col = None"
  shows "step\<^sup>*\<^sup>* (col, ts)
     (col\<lparr>function_info_map := AddFunctionTime name time (function_info_map col)\<rparr>,
      ts[i := (Outside, cs)])"
proof -
  let ?c = "(name, time)"
  let ?m = "function_info_map col"
  let ?b = "map_of ?m name = None"
  let ?col1 = "col\<lparr>lock := Some i\<rparr>"
  let ?ts1 = "ts[i := (Locked, ?c # cs)]"
  let ?ts2 = "?ts1[i := (Tested ?b, ?c # cs)]"
  let ?col3 = "?col1\<lparr>function_info_map := write_entry ?b name time ?m\<rparr>"
  let ?ts3 = "?ts2[i := (Written, ?c # cs)]"
  have s1: "step (col, ts) (?col1, ?ts1)"
    by (rule step.acquire_lock [OF i t free])
  have s2: "step (?col1, ?ts1) (?col1, ?ts2)"
    using step.test_count [of i ?ts1 name time cs ?col1] i by simp
  have s3: "step (?col1, ?ts2) (?col3, ?ts3)"
    using step.write_map [of i ?ts2 ?b name time cs ?col1] i by simp
  have s4: "step (?col3, ?ts3) (?col3\<lparr>lock := None\<rparr>, ?ts3[i := (Outside, cs)])"
    using step.release_lock [of i ?ts3 ?c cs ?col3] i by simp
  have "?col3\<lparr>lock := None\<rparr> = col\<lparr>function_info_map := AddFunctionTime name time ?m\<rparr>"
    using free by (cases col) (simp add: write_entry_AddFunctionTime)
  moreover have "?ts3[i := (Outside, cs)] = ts[i := (Outside, cs)]"
    by simp
  ultimately have s4': "step (?col3, ?ts3)
     (col\<lparr>function_info_map := AddFunctionTime name time ?m\<rparr>, ts[i := (Outside, cs)])"
    using s4 by simp
  have "step\<^sup>*\<^sup>* (col, ts) (?col1, ?ts1)"
    using s1 by (rule r_into_rtranclp)
  also note s2
  also note s3
  also note s4'
  finally show ?thesis .
qed

lemma run_thread:
  "i < length ts \<Longrightarrow> ts ! i = (Outside, cs) \<Longrightarrow> lock col = None \<Longrightarrow>
   step\<^sup>*\<^sup>* (col, ts)
     (col\<lparr>function_info_map := run_calls cs (function_info_map col)\<rparr>, ts[i := (Outside, [])])"
proof (induction cs arbitrary: col ts)
  case Nil
  then have "ts[i := (Outside, [])] = ts"
    by (metis list_update_id)
  then show ?case
    by (simp add: run_calls_def)
next
  case (Cons c cs)
  obtain name time where c: "c = (name, time)" by (cases c)
  let ?col' = "col\<lparr>function_info_map := AddFunctionTime name time (function_info_map col)\<rparr>"
  let ?ts' = "ts[i := (Outside, cs)]"
  have first: "step\<^sup>*\<^sup>* (col, ts) (?col', ?ts')"
    using one_call [of i ts name time cs col] Cons.prems by (simp add: c)
  have "step\<^sup>*\<^sup>* (?col', ?ts')
     (?col'\<lparr>function_info_map := run_calls cs (function_info_map ?col')\<rparr>,
      ?ts'[i := (Outside, [])])"
    using Cons.prems by (intro Cons.IH) simp_all
  then have rest: "step\<^sup>*\<^sup>* (?col', ?ts')
     (col\<lparr>function_info_map := run_calls (c # cs) (function_info_map col)\<rparr>,
      ts[i := (Outside, [])])"
    by (simp add: run_calls_def c)
  from first rest show ?case
    by (rule rtranclp_trans)
qed

lemma run_two_threads:
  "step\<^sup>*\<^sup>* (initial [p, q])
     (\<lparr>lock = None, function_info_map = run_calls (p @ q) []\<rparr>, [(Outside, []), (Outside, [])])"
proof -
  let ?col = "\<lparr>lock = None, function_info_map = []\<rparr>"
  have "step\<^sup>*\<^sup>* (?col, [(Outside, p), (Outside, q)])
     (?col\<lparr>function_info_map := run_calls p []\<rparr>, [(Outside, []), (Outside, q)])"
    using run_thread [of 0 "[(Outside, p), (Outside, q)]" p ?col] by simp
  moreover have "step\<^sup>*\<^sup>* (?col\<lparr>function_info_map := run_calls p []\<rparr>, [(Outside, []), (Outside, q)])
     (?col\<lparr>function_info_map := run_calls q (run_calls p [])\<rparr>, [(Outside, []), (Outside, [])])"
    using run_thread [of 1 "[(Outside, []), (Outside, q)]" q
        "?col\<lparr>function_info_map := run_calls p []\<rparr>"] by simp
  ultimately have "step\<^sup>*\<^sup>* (?col, [(Outside, p), (Outside, q)])
     (?col\<lparr>function_info_map := run_calls q (run_calls p [])\<rparr>, [(Outside, []), (Outside, [])])"
    by (rule rtranclp_trans)
  then show ?thesis
    by (simp add: initial_def run_calls_def)
qed

lemma reachable_map:
  assumes "step\<^sup>*\<^sup>* (initial programs) (col, ts)"
  shows "\<exists>done_calls rest. function_info_map col = run_calls done_calls []
           \<and> mset done_calls + rest = mset (concat programs)"
  using invariantD(3) [OF invariant_reachable [OF assms]] by blast

lemma times_of_bounds:
  assumes "mset done_calls + rest = mset all_calls"
  shows "sum_list (map unat (times_of name done_calls))
           \<le> sum_list (map unat (times_of name all_calls))"
    and "length (times_of name done_calls) \<le> length (times_of name all_calls)"
proof -
  let ?T = "\<lambda>cs. image_mset (unat \<circ> snd) (filter_mset (\<lambda>c. fst c = name) cs)"
  have T: "mset (map unat (times_of name cs)) = ?T (mset cs)" for cs
    by (simp add: times_of_def multiset.map_comp)
  have split: "?T (mset all_calls) = ?T (mset done_calls) + ?T rest"
    by (simp flip: assms)
  have "sum_list (map unat (times_of name cs)) = sum_mset (?T (mset cs))" for cs
    by (simp only: T [symmetric] sum_mset_sum_list)
  then show "sum_list (map unat (times_of name done_calls))
           \<le> sum_list (map unat (times_of name all_calls))"
    by (simp add: split)
  have len: "length (times_of name cs) = size (filter_mset (\<lambda>c. fst c = name) (mset cs))" for cs
    unfolding times_of_def length_map by (metis mset_filter size_mset)
  show "length (times_of name done_calls) \<le> length (times_of name all_calls)"
    unfolding len assms [symmetric] by simp
qed

text \<open>
  C3 (as amended). Every entry of the map has a count of at least 1 and an average
  \<open>total_time / call_count\<close> between its minimum and its maximum, after any sequence of
  calls on a new collector and in every state that threads calling \<^verbatim>\<open>AddFunctionTime\<close>
  reach, however their steps interleave (the write of a branch, made under the mutex,
  being one step); provided that the sum of the elapsed values
  passed under the entry's name and the number of these calls are below \<open>2 ^ 64\<close>, so
  that neither field wraps around.
\<close>

theorem FunctionStat_invariant:
  "(map_of (run_calls calls []) name = Some f \<longrightarrow>
      sum_list (map unat (times_of name calls)) < 2 ^ 64 \<longrightarrow>
      length (times_of name calls) < 2 ^ 64 \<longrightarrow> FunctionStat_inv f)
   \<and> (step\<^sup>*\<^sup>* (initial programs) (col, ts) \<longrightarrow>
      map_of (function_info_map col) name = Some g \<longrightarrow>
      sum_list (map unat (times_of name (concat programs))) < 2 ^ 64 \<longrightarrow>
      length (times_of name (concat programs)) < 2 ^ 64 \<longrightarrow> FunctionStat_inv g)"
proof (intro conjI impI)
  assume "map_of (run_calls calls []) name = Some f"
    and "sum_list (map unat (times_of name calls)) < 2 ^ 64"
    and "length (times_of name calls) < 2 ^ 64"
  then show "FunctionStat_inv f"
    by (intro FunctionStat_inv_stat_of [of "times_of name calls"])
      (simp_all add: map_of_run_calls)
next
  assume run: "step\<^sup>*\<^sup>* (initial programs) (col, ts)"
    and g: "map_of (function_info_map col) name = Some g"
    and total: "sum_list (map unat (times_of name (concat programs))) < 2 ^ 64"
    and count: "length (times_of name (concat programs)) < 2 ^ 64"
  from reachable_map [OF run] obtain done_calls rest
    where m: "function_info_map col = run_calls done_calls []"
      and all: "mset done_calls + rest = mset (concat programs)"
    by blast
  from g have "stat_of (times_of name done_calls) = Some g"
    by (simp add: m map_of_run_calls)
  then show "FunctionStat_inv g"
    using times_of_bounds [OF all, of name] total count
    by (intro FunctionStat_inv_stat_of [of "times_of name done_calls"]) simp_all
qed

theorem FunctionStat_invariant_witness:
  "map_of (run_calls [(''f'', 5), (''g'', 7), (''f'', 2)] []) ''f''
     = Some \<lparr>total_time = 7, min_time = 2, max_time = 5, call_count = 2\<rparr>
   \<and> step\<^sup>*\<^sup>* (initial [[(''f'', 5), (''g'', 7)], [(''f'', 2)]])
       (\<lparr>lock = None,
         function_info_map = run_calls ([(''f'', 5), (''g'', 7)] @ [(''f'', 2)]) []\<rparr>,
        [(Outside, []), (Outside, [])])
   \<and> FunctionStat_inv \<lparr>total_time = 7, min_time = 2, max_time = 5, call_count = 2\<rparr>"
proof -
  let ?f = "\<lparr>total_time = 7, min_time = 2, max_time = 5, call_count = 2\<rparr> :: Function"
  let ?calls = "[(''f'', 5), (''g'', 7), (''f'', 2)] :: (string \<times> u64) list"
  let ?programs = "[[(''f'', 5), (''g'', 7)], [(''f'', 2)]] :: (string \<times> u64) list list"
  let ?col = "\<lparr>lock = None,
         function_info_map = run_calls ([(''f'', 5), (''g'', 7)] @ [(''f'', 2)]) []\<rparr>"
  have e: "map_of (run_calls ?calls []) ''f'' = Some ?f"
    by (simp add: run_calls_def AddFunctionTime_def update_function_def)
  have r: "step\<^sup>*\<^sup>* (initial ?programs) (?col, [(Outside, []), (Outside, [])])"
    by (rule run_two_threads)
  have e': "map_of (function_info_map ?col) ''f'' = Some ?f"
    using e by simp
  have total: "sum_list (map unat (times_of ''f'' ?calls)) < 2 ^ 64"
    and count: "length (times_of ''f'' ?calls) < 2 ^ 64"
    and total': "sum_list (map unat (times_of ''f'' (concat ?programs))) < 2 ^ 64"
    and count': "length (times_of ''f'' (concat ?programs)) < 2 ^ 64"
    by (simp_all add: times_of_def)
  note th = FunctionStat_invariant
    [of ?calls "''f''" ?f ?programs ?col "[(Outside, []), (Outside, [])]" ?f]
  from th e total count have "FunctionStat_inv ?f"
    by blast
  moreover from th r e' total' count' have "FunctionStat_inv ?f"
    by blast
  ultimately show ?thesis
    using e r by blast
qed

text \<open>
  Without the bound the average leaves the interval: after the elapsed values
  \<open>2 ^ 64 - 1\<close> and 2 the total has wrapped to 1, the average is 0 and the minimum is 2.
\<close>

theorem FunctionStat_invariant_overflow:
  "map_of (run_calls [(''f'', 18446744073709551615), (''f'', 2)] []) ''f''
     = Some \<lparr>total_time = 1, min_time = 2, max_time = 18446744073709551615, call_count = 2\<rparr>
   \<and> \<not> FunctionStat_inv
         \<lparr>total_time = 1, min_time = 2, max_time = 18446744073709551615, call_count = 2\<rparr>"
  by (simp add: run_calls_def AddFunctionTime_def update_function_def FunctionStat_inv_def)

text \<open>
  C9. Two threads each make 1000 calls of \<^verbatim>\<open>AddFunctionTime\<close> for \<^verbatim>\<open>kernelA\<close> on a new
  collector, one with an elapsed value of 100 and the other with 300. However their
  steps interleave, once both have made all their calls the entry of \<^verbatim>\<open>kernelA\<close> has a
  count of 2000, a total of 400000, a minimum of 100 and a maximum of 300: the mutex
  lets only one thread at a time between the test and the write of the map, so every
  call takes effect as a whole.
\<close>

theorem two_threads_kernelA:
  assumes "step\<^sup>*\<^sup>*
      (initial [replicate 1000 (''kernelA'', 100), replicate 1000 (''kernelA'', 300)]) (col, ts)"
    and "finished ts"
  shows "map_of (function_info_map col) ''kernelA''
     = Some \<lparr>total_time = 400000, min_time = 100, max_time = 300, call_count = 2000\<rparr>"
proof -
  have "map_of (function_info_map col) ''kernelA''
    = stat_of (times_of ''kernelA''
        (concat [replicate 1000 (''kernelA'', 100), replicate 1000 (''kernelA'', 300)]))"
    by (rule finished_result [OF assms])
  also have "\<dots> = stat_of (times_of ''kernelA''
        (replicate 1000 (''kernelA'', 100) @ replicate 1000 (''kernelA'', 300)))"
    by (simp only: concat.simps append_Nil2)
  also have "\<dots> = Some \<lparr>total_time = of_nat 1000 * 100 + of_nat 1000 * 300, min_time = 100,
      max_time = 300, call_count = of_nat (1000 + 1000)\<rparr>"
    by (rule stat_of_two_values) simp_all
  also have "\<dots> = Some \<lparr>total_time = 400000, min_time = 100, max_time = 300, call_count = 2000\<rparr>"
    by simp
  finally show ?thesis .
qed

theorem two_threads_kernelA_witness:
  "step\<^sup>*\<^sup>* (initial [replicate 1000 (''kernelA'', 100), replicate 1000 (''kernelA'', 300)])
     (\<lparr>lock = None,
       function_info_map =
         run_calls (replicate 1000 (''kernelA'', 100) @ replicate 1000 (''kernelA'', 300)) []\<rparr>,
      [(Outside, []), (Outside, [])])
   \<and> finished [(Outside, []), (Outside, [])]
   \<and> map_of (run_calls (replicate 1000 (''kernelA'', 100) @ replicate 1000 (''kernelA'', 300)) [])
        ''kernelA''
     = Some \<lparr>total_time = 400000, min_time = 100, max_time = 300, call_count = 2000\<rparr>"
proof -
  have r: "step\<^sup>*\<^sup>* (initial [replicate 1000 (''kernelA'', 100), replicate 1000 (''kernelA'', 300)])
     (\<lparr>lock = None,
       function_info_map =
         run_calls (replicate 1000 (''kernelA'', 100) @ replicate 1000 (''kernelA'', 300)) []\<rparr>,
      [(Outside, []), (Outside, [])])"
    by (rule run_two_threads)
  have f: "finished [(Outside, []), (Outside, [])]"
    by (simp add: finished_def)
  have "map_of (run_calls (replicate 1000 (''kernelA'', 100) @ replicate 1000 (''kernelA'', 300)) [])
        ''kernelA''
     = Some \<lparr>total_time = 400000, min_time = 100, max_time = 300, call_count = 2000\<rparr>"
    using two_threads_kernelA [OF r f] by (simp only: collector.select_convs)
  with r f show ?thesis
    by (intro conjI)
qed

section \<open>Properties of the record iterator\<close>

lemma buffer_size_append: "buffer_size (xs @ ys) = buffer_size xs + buffer_size ys"
  by (simp add: buffer_size_def)

lemma buffer_size_Cons: "buffer_size (r # rs) = struct_size r + buffer_size rs"
  by (simp add: buffer_size_def)

lemma buffer_size_snoc: "buffer_size (xs @ [r]) = buffer_size xs + struct_size r"
  by (simp add: buffer_size_def)

lemma well_formed_Cons:
  "well_formed hs (r # rs) =
     ((view_kind r \<noteq> None \<and> hs \<le> struct_size r \<and> 0 < struct_size r) \<and> well_formed hs rs)"
  by (simp add: well_formed_def)

lemma well_formed_append:
  "well_formed hs (xs @ ys) = (well_formed hs xs \<and> well_formed hs ys)"
  by (simp add: well_formed_def)

lemma header_at_append:
  "well_formed hs pre \<Longrightarrow> header_at (pre @ r # post) (buffer_size pre) = Some r"
  by (induction pre) (auto simp: well_formed_Cons buffer_size_Cons buffer_size_def)

lemma next_record_at_end:
  "cursor c = sz \<Longrightarrow>
   ptiViewGetNextRecord hs buffer sz (Some c) = (PTI_STATUS_END_OF_BUFFER, Some c)"
  by (simp add: ptiViewGetNextRecord_def split: option.splits)

lemma next_record_success:
  assumes "well_formed hs (pre @ r # post)"
  shows "ptiViewGetNextRecord hs (Some (pre @ r # post)) (buffer_size (pre @ r # post))
           (Some \<lparr>cursor = buffer_size pre, current_record = v\<rparr>)
         = (PTI_SUCCESS, Some \<lparr>cursor = buffer_size (pre @ [r]), current_record = Some r\<rparr>)"
proof -
  from assms have pre: "well_formed hs pre"
    and r: "view_kind r \<noteq> None" "hs \<le> struct_size r" "0 < struct_size r"
    by (simp_all add: well_formed_append well_formed_Cons)
  have "header_at (pre @ r # post) (buffer_size pre) = Some r"
    by (rule header_at_append [OF pre])
  with r show ?thesis
    by (auto simp: ptiViewGetNextRecord_def buffer_size_def)
qed

lemma drain_well_formed:
  "well_formed hs (pre @ post) \<Longrightarrow>
   drain hs (Some (pre @ post)) (buffer_size (pre @ post))
     (Some \<lparr>cursor = buffer_size pre, current_record = v\<rparr>) views
   = Some (PTI_STATUS_END_OF_BUFFER, views @ post)"
proof (induction post arbitrary: pre v views)
  case Nil
  then show ?case
    by (subst drain.simps) (simp add: next_record_at_end)
next
  case (Cons r post)
  note step = next_record_success [OF Cons.prems, of v]
  from Cons.prems have wf: "well_formed hs ((pre @ [r]) @ post)"
    by simp
  have "drain hs (Some (pre @ r # post)) (buffer_size (pre @ r # post))
     (Some \<lparr>cursor = buffer_size pre, current_record = v\<rparr>) views
    = drain hs (Some (pre @ r # post)) (buffer_size (pre @ r # post))
     (Some \<lparr>cursor = buffer_size (pre @ [r]), current_record = Some r\<rparr>) (views @ [r])"
    by (subst drain.simps) (simp add: step view_of_def)
  also have "\<dots> = Some (PTI_STATUS_END_OF_BUFFER, (views @ [r]) @ post)"
    using Cons.IH [OF wf, of "Some r" "views @ [r]"] by simp
  finally show ?case by simp
qed

lemma RegularParseRecords_loop_well_formed:
  "well_formed hs (pre @ post) \<Longrightarrow>
   RegularParseRecords_loop hs (Some (pre @ post)) (buffer_size (pre @ post))
     (Some \<lparr>cursor = buffer_size pre, current_record = v\<rparr>) n
   = Some (Inr (foldl (\<lambda>n h. count_record h n) n post))"
proof (induction post arbitrary: pre v n)
  case Nil
  then show ?case
    by (subst RegularParseRecords_loop.simps) (simp add: next_record_at_end)
next
  case (Cons r post)
  note step = next_record_success [OF Cons.prems, of v]
  from Cons.prems have wf: "well_formed hs ((pre @ [r]) @ post)"
    by simp
  have "RegularParseRecords_loop hs (Some (pre @ r # post)) (buffer_size (pre @ r # post))
     (Some \<lparr>cursor = buffer_size pre, current_record = v\<rparr>) n
    = RegularParseRecords_loop hs (Some (pre @ r # post)) (buffer_size (pre @ r # post))
     (Some \<lparr>cursor = buffer_size (pre @ [r]), current_record = Some r\<rparr>) (count_record r n)"
    by (subst RegularParseRecords_loop.simps) (simp add: step)
  also have "\<dots> = Some (Inr (foldl (\<lambda>n h. count_record h n) (count_record r n) post))"
    using Cons.IH [OF wf, of "Some r" "count_record r n"] by simp
  finally show ?case by simp
qed

lemma CheckBufferEnd_loop_well_formed:
  "well_formed hs (pre @ post) \<Longrightarrow>
   CheckBufferEnd_loop hs (Some (pre @ post)) (buffer_size (pre @ post))
     (Some \<lparr>cursor = buffer_size pre, current_record = v\<rparr>) k
   = Some (k + length post,
       Some \<lparr>cursor = buffer_size (pre @ post),
             current_record = (if post = [] then v else Some (last post))\<rparr>)"
proof (induction post arbitrary: pre v k)
  case Nil
  then show ?case
    by (subst CheckBufferEnd_loop.simps) (simp add: next_record_at_end)
next
  case (Cons r post)
  note step = next_record_success [OF Cons.prems, of v]
  from Cons.prems have wf: "well_formed hs ((pre @ [r]) @ post)"
    by simp
  have "CheckBufferEnd_loop hs (Some (pre @ r # post)) (buffer_size (pre @ r # post))
     (Some \<lparr>cursor = buffer_size pre, current_record = v\<rparr>) k
    = CheckBufferEnd_loop hs (Some (pre @ r # post)) (buffer_size (pre @ r # post))
     (Some \<lparr>cursor = buffer_size (pre @ [r]), current_record = Some r\<rparr>) (k + 1)"
    by (subst CheckBufferEnd_loop.simps) (simp add: step)
  also have "\<dots> = Some (k + 1 + length post,
       Some \<lparr>cursor = buffer_size (pre @ r # post),
             current_record = (if post = [] then Some r else Some (last post))\<rparr>)"
    using Cons.IH [OF wf, of "Some r" "k + 1"] by simp
  finally show ?case by simp
qed


lemma count_kind_append: "count_kind k (xs @ ys) = count_kind k xs + count_kind k ys"
  by (simp add: count_kind_def)

lemma count_kind_RecordInserts:
  "count_kind k (RecordInserts rs k' n) = (if k' = k then n else 0)"
  by (induction n) (simp_all add: count_kind_def RecordInserts_def)

lemma length_RecordInserts: "length (RecordInserts rs k n) = n"
  by (simp add: RecordInserts_def)

lemma well_formed_RecordInserts:
  "hs \<le> rs k \<Longrightarrow> 0 < rs k \<Longrightarrow> well_formed hs (RecordInserts rs k n)"
  by (induction n) (simp_all add: well_formed_def RecordInserts_def)

lemma well_formed_test_buf:
  assumes "\<And>kind. hs \<le> rs kind" and "\<And>kind. 0 < rs kind"
  shows "well_formed hs (test_buf rs)"
  using assms by (simp add: test_buf_def well_formed_append well_formed_RecordInserts)

lemma test_buf_counts:
  "count_kind PTI_VIEW_COLLECTION_OVERHEAD (test_buf rs) = 2"
  "count_kind PTI_VIEW_DEVICE_GPU_MEM_COPY (test_buf rs) = 15"
  "count_kind PTI_VIEW_DEVICE_GPU_MEM_FILL (test_buf rs) = 15"
  "count_kind PTI_VIEW_EXTERNAL_CORRELATION (test_buf rs) = 100"
  "count_kind PTI_VIEW_DEVICE_GPU_KERNEL (test_buf rs) = 3"
  "count_kind PTI_VIEW_INVALID (test_buf rs) = 0"
  "length (test_buf rs) = 135"
  by (simp_all add: test_buf_def count_kind_append count_kind_RecordInserts length_RecordInserts
      kNumOhRecs_def kNumMemRecs_def kNumExtRecs_def kNumKernelRecs_def)

lemma kTotalRecs_value: "kTotalRecs = 135"
  by (simp add: kTotalRecs_def kNumOhRecs_def kNumMemRecs_def kNumExtRecs_def kNumKernelRecs_def)

lemma foldl_count_record:
  "foldl (\<lambda>n h. count_record h n) n buf =
     \<lparr>total_records = total_records n + length buf,
      number_of_memory_copies =
        number_of_memory_copies n + count_kind PTI_VIEW_DEVICE_GPU_MEM_COPY buf,
      number_of_kernel = number_of_kernel n + count_kind PTI_VIEW_DEVICE_GPU_KERNEL buf,
      number_of_overhead = number_of_overhead n + count_kind PTI_VIEW_COLLECTION_OVERHEAD buf\<rparr>"
  by (induction buf arbitrary: n) (simp_all add: count_record_def count_kind_def Let_def)

lemma start_cursor_at: "start_cursor = \<lparr>cursor = buffer_size [], current_record = None\<rparr>"
  by (simp add: start_cursor_def buffer_size_def)

lemma drain_test_buf:
  assumes "\<And>kind. hs \<le> rs kind" and "\<And>kind. 0 < rs kind"
  shows "drain hs (Some (test_buf rs)) (buffer_size (test_buf rs)) (Some start_cursor) []
     = Some (PTI_STATUS_END_OF_BUFFER, test_buf rs)"
  using drain_well_formed [of hs "[]" "test_buf rs" None "[]"] well_formed_test_buf [OF assms]
  by (simp add: start_cursor_at)

lemma RegularParseRecordsTest_result:
  assumes "\<And>kind. hs \<le> rs kind" and "\<And>kind. 0 < rs kind"
  shows "RegularParseRecordsTest hs rs =
     Some (Inr \<lparr>total_records = 135, number_of_memory_copies = 15, number_of_kernel = 3,
                number_of_overhead = 2\<rparr>)"
  using RegularParseRecords_loop_well_formed [of hs "[]" "test_buf rs" None]
    well_formed_test_buf [OF assms]
  by (simp add: RegularParseRecordsTest_def start_cursor_at foldl_count_record test_buf_counts)

lemma CheckBufferEnd_loop_test_buf:
  assumes "\<And>kind. hs \<le> rs kind" and "\<And>kind. 0 < rs kind"
  shows "CheckBufferEnd_loop hs (Some (test_buf rs)) (buffer_size (test_buf rs))
       (Some start_cursor) 0
     = Some (135, Some \<lparr>cursor = buffer_size (test_buf rs),
                          current_record = Some (last (test_buf rs))\<rparr>)"
proof -
  have "test_buf rs \<noteq> []"
    using test_buf_counts(7) [of rs] by auto
  then show ?thesis
    using CheckBufferEnd_loop_well_formed [of hs "[]" "test_buf rs" None 0]
      well_formed_test_buf [OF assms]
    by (simp add: start_cursor_at test_buf_counts)
qed

lemma CheckBufferEndTest_passes:
  assumes "\<And>kind. hs \<le> rs kind" and "\<And>kind. 0 < rs kind"
  shows "CheckBufferEndTest hs rs = Some True"
  by (simp add: CheckBufferEndTest_def Let_def CheckBufferEnd_loop_test_buf [OF assms]
      next_record_at_end not_nullptr_def view_of_def kTotalRecs_value)

lemma repeated_calls_at_end:
  "cursor c = sz \<Longrightarrow>
   ((\<lambda>r. snd (ptiViewGetNextRecord hs buffer sz r)) ^^ n) (Some c) = Some c"
  by (induction n) (simp_all add: next_record_at_end)

lemma example_sizes: "example_header_size \<le> example_record_size kind" "0 < example_record_size kind"
  by (cases kind; simp add: example_header_size_def)+

text \<open>
  C2 (as amended). Whatever the sizes of the records of each kind, provided that none is
  zero or below the size of the common header: draining the test buffer (1 overhead
  record, 15 memory-copy, 15 memory-fill, 100 external-correlation, 3 kernel records and
  1 overhead record, in this order) returns exactly these records, call after call, and
  the call after the last record returns \<^verbatim>\<open>END_OF_BUFFER\<close>. That is 2 overhead, 15
  memory-copy, 15 memory-fill, 100 external-correlation and 3 kernel records, 135 records
  in all (not 136), and the loop of \<^verbatim>\<open>RegularParseRecordsTest\<close> ends with the counters
  that the test expects, \<^verbatim>\<open>kTotalRecs\<close> being 135.
\<close>

theorem drain_test_buf_counts:
  assumes "\<And>kind. header_size \<le> record_size kind" and "\<And>kind. 0 < record_size kind"
  shows "drain header_size (Some (test_buf record_size)) (buffer_size (test_buf record_size))
           (Some start_cursor) []
         = Some (PTI_STATUS_END_OF_BUFFER, test_buf record_size)
       \<and> count_kind PTI_VIEW_COLLECTION_OVERHEAD (test_buf record_size) = 2
       \<and> count_kind PTI_VIEW_DEVICE_GPU_MEM_COPY (test_buf record_size) = 15
       \<and> count_kind PTI_VIEW_DEVICE_GPU_MEM_FILL (test_buf record_size) = 15
       \<and> count_kind PTI_VIEW_EXTERNAL_CORRELATION (test_buf record_size) = 100
       \<and> count_kind PTI_VIEW_DEVICE_GPU_KERNEL (test_buf record_size) = 3
       \<and> length (test_buf record_size) = 135
       \<and> RegularParseRecordsTest header_size record_size
         = Some (Inr \<lparr>total_records = 135, number_of_memory_copies = 15, number_of_kernel = 3,
                      number_of_overhead = 2\<rparr>)
       \<and> RegularParseRecords_expectations
           \<lparr>total_records = 135, number_of_memory_copies = 15, number_of_kernel = 3,
            number_of_overhead = 2\<rparr>"
proof -
  have "RegularParseRecords_expectations
           \<lparr>total_records = 135, number_of_memory_copies = 15, number_of_kernel = 3,
            number_of_overhead = 2\<rparr>"
    by (simp add: RegularParseRecords_expectations_def kTotalRecs_value kNumOhRecs_def
        kNumMemRecs_def kNumKernelRecs_def)
  then show ?thesis
    by (simp only: drain_test_buf [OF assms] RegularParseRecordsTest_result [OF assms]
        test_buf_counts simp_thms)
qed

theorem drain_test_buf_counts_witness:
  "drain example_header_size (Some (test_buf example_record_size))
       (buffer_size (test_buf example_record_size)) (Some start_cursor) []
     = Some (PTI_STATUS_END_OF_BUFFER, test_buf example_record_size)
   \<and> RegularParseRecordsTest example_header_size example_record_size
     = Some (Inr \<lparr>total_records = 135, number_of_memory_copies = 15, number_of_kernel = 3,
                  number_of_overhead = 2\<rparr>)"
  using drain_test_buf_counts [of example_header_size example_record_size, OF example_sizes]
  by simp

text \<open>
  With the example sizes the drain returns the 135 records of the buffer and then
  \<^verbatim>\<open>END_OF_BUFFER\<close>: the total is not 136, and neither is the test's \<^verbatim>\<open>kTotalRecs\<close>.
\<close>

theorem drain_test_buf_total_is_135:
  "drain example_header_size (Some (test_buf example_record_size))
       (buffer_size (test_buf example_record_size)) (Some start_cursor) []
     = Some (PTI_STATUS_END_OF_BUFFER, test_buf example_record_size)
   \<and> length (test_buf example_record_size) = 135
   \<and> length (test_buf example_record_size) \<noteq> 136
   \<and> kTotalRecs = 135"
  by (simp add: drain_test_buf [OF example_sizes] test_buf_counts kTotalRecs_value)

text \<open>
  C5. With a null buffer and a destination that is not null the iterator returns
  \<^verbatim>\<open>END_OF_BUFFER\<close> and leaves the destination as it was, for every size and every
  state of the destination; in particular for the sizes 0 and \<open>2 ^ 64 - 1\<close> of
  \<^verbatim>\<open>NullBufferTest\<close> and \<^verbatim>\<open>NullBufferBadSizeTest\<close>.
\<close>

theorem null_buffer_is_end_of_buffer:
  "ptiViewGetNextRecord header_size None size' (Some c) = (PTI_STATUS_END_OF_BUFFER, Some c)
   \<and> fst (ptiViewGetNextRecord header_size None 0 (Some start_cursor))
       = PTI_STATUS_END_OF_BUFFER
   \<and> fst (ptiViewGetNextRecord header_size None (2 ^ 64 - 1) (Some start_cursor))
       = PTI_STATUS_END_OF_BUFFER"
  by (simp add: ptiViewGetNextRecord_def)

text \<open>
  C6. With a null destination the iterator returns \<^verbatim>\<open>BAD_ARGUMENT\<close> for every buffer,
  null or not, and every size: the destination is checked before the buffer. In
  particular for the null buffer and the size \<open>2 ^ 64 - 1\<close> of
  \<^verbatim>\<open>NullRecordBadSizeBufferTest\<close>.
\<close>

theorem null_record_is_bad_argument:
  "ptiViewGetNextRecord header_size buffer size' None = (PTI_ERROR_BAD_ARGUMENT, None)
   \<and> fst (ptiViewGetNextRecord header_size None (2 ^ 64 - 1) None) = PTI_ERROR_BAD_ARGUMENT"
  by (simp add: ptiViewGetNextRecord_def)

text \<open>
  C7. Once the cursor has reached \<open>size\<close>, a call returns \<^verbatim>\<open>END_OF_BUFFER\<close> and leaves the
  destination, cursor included, as it was; so after any number \<open>n\<close> of further calls the
  destination is still the same and the next call returns \<^verbatim>\<open>END_OF_BUFFER\<close> again, never
  an error status. The loop of \<^verbatim>\<open>CheckBufferEndTest\<close> ends on the test buffer with the
  cursor at \<open>size\<close> after counting 135 records, and the test passes: the further call
  returns \<^verbatim>\<open>END_OF_BUFFER\<close> and \<^verbatim>\<open>current_record\<close> is not null.
\<close>

theorem end_of_buffer_is_stable:
  assumes "cursor c = size'"
  shows "ptiViewGetNextRecord header_size buffer size' (Some c)
           = (PTI_STATUS_END_OF_BUFFER, Some c)
       \<and> ((\<lambda>r. snd (ptiViewGetNextRecord header_size buffer size' r)) ^^ n) (Some c) = Some c
       \<and> ptiViewGetNextRecord header_size buffer size'
             (((\<lambda>r. snd (ptiViewGetNextRecord header_size buffer size' r)) ^^ n) (Some c))
           = (PTI_STATUS_END_OF_BUFFER, Some c)
       \<and> ((\<forall>kind. header_size \<le> record_size kind \<and> 0 < record_size kind) \<longrightarrow>
            CheckBufferEnd_loop header_size (Some (test_buf record_size))
                (buffer_size (test_buf record_size)) (Some start_cursor) 0
              = Some (135, Some \<lparr>cursor = buffer_size (test_buf record_size),
                                   current_record = Some (last (test_buf record_size))\<rparr>)
            \<and> CheckBufferEndTest header_size record_size = Some True)"
  using assms
  by (simp add: next_record_at_end repeated_calls_at_end CheckBufferEnd_loop_test_buf
      CheckBufferEndTest_passes)

theorem end_of_buffer_is_stable_witness:
  "ptiViewGetNextRecord example_header_size (Some (test_buf example_record_size))
       (buffer_size (test_buf example_record_size))
       (Some \<lparr>cursor = buffer_size (test_buf example_record_size), current_record = None\<rparr>)
     = (PTI_STATUS_END_OF_BUFFER,
        Some \<lparr>cursor = buffer_size (test_buf example_record_size), current_record = None\<rparr>)
   \<and> CheckBufferEndTest example_header_size example_record_size = Some True"
  using end_of_buffer_is_stable
    [of "\<lparr>cursor = buffer_size (test_buf example_record_size), current_record = None\<rparr>"
        "buffer_size (test_buf example_record_size)" example_header_size
        "Some (test_buf example_record_size)" 0 example_record_size]
    example_sizes
  by simp

end
